theory Spec2Isabelle
  imports Main
begin

section \<open>Bytes, slices and the library functions the framer calls\<close>

text \<open>
  A Go \<open>[]byte\<close> is a list of 8-bit characters. \<open>bytes.Index\<close> returns the index of the
  first occurrence of \<open>sep\<close> in \<open>s\<close>, or \<open>-1\<close>; the model returns \<open>None\<close> for \<open>-1\<close>.
\<close>

type_synonym byte = char

fun hasPrefix :: "byte list \<Rightarrow> byte list \<Rightarrow> bool" where
  "hasPrefix s [] = True"
| "hasPrefix [] (p # ps) = False"
| "hasPrefix (x # xs) (p # ps) = (x = p \<and> hasPrefix xs ps)"

fun Index :: "byte list \<Rightarrow> byte list \<Rightarrow> nat option" where
  "Index [] sep = (if sep = [] then Some 0 else None)"
| "Index (x # xs) sep =
     (if hasPrefix (x # xs) sep then Some 0 else map_option Suc (Index xs sep))"

text \<open>
  The slice expression \<open>data[lo:hi]\<close> panics unless \<open>lo \<le> hi \<le> len(data)\<close>; the panic
  is the value \<open>None\<close>.
\<close>

definition slice :: "byte list \<Rightarrow> nat \<Rightarrow> nat \<Rightarrow> byte list option" where
  "slice data lo hi =
     (if lo \<le> hi \<and> hi \<le> length data then Some (take (hi - lo) (drop lo data)) else None)"

datatype error = errBadRequest | ErrSyntax | ErrRange | SliceBounds

text \<open>
  \<open>strconv.ParseInt(s, 10, 64)\<close> of the Go standard library: an optional sign, then
  \<open>ParseUint\<close> over the digits, accumulating in a \<open>uint64\<close> (wrap-around written out),
  then the range check against \<open>2^63\<close>. In base 10 a letter is a digit value of 10 or
  more and an underscore is not accepted, so every byte that is not a decimal digit is a
  syntax error. \<open>SliceBounds\<close> stands for the run-time panic of a slice expression.
\<close>

definition maxUint64 :: nat where
  "maxUint64 = 2 ^ 64 - 1"

definition isDigit :: "byte \<Rightarrow> bool" where
  "isDigit c = (48 \<le> (of_char c :: nat) \<and> (of_char c :: nat) \<le> 57)"

fun ParseUint_loop :: "nat \<Rightarrow> byte list \<Rightarrow> error + nat" where
  "ParseUint_loop n [] = Inr n"
| "ParseUint_loop n (c # cs) =
     (if \<not> isDigit c then Inl ErrSyntax
      else if n \<ge> maxUint64 div 10 + 1 then Inl ErrRange
      else (let n' = (n * 10) mod 2 ^ 64;
                n1 = (n' + (of_char c - 48)) mod 2 ^ 64
            in if n1 < n' \<or> n1 > maxUint64 then Inl ErrRange
               else ParseUint_loop n1 cs))"

definition ParseUint :: "byte list \<Rightarrow> error + nat" where
  "ParseUint s = (if s = [] then Inl ErrSyntax else ParseUint_loop 0 s)"

definition ParseInt :: "byte list \<Rightarrow> error + int" where
  "ParseInt s =
     (case s of
        [] \<Rightarrow> Inl ErrSyntax
      | c # cs \<Rightarrow>
          (let neg = (c = CHR ''-'');
               s' = (if c = CHR ''+'' \<or> c = CHR ''-'' then cs else s)
           in case ParseUint s' of
                Inl ErrSyntax \<Rightarrow> Inl ErrSyntax
              | r \<Rightarrow>
                  (let un = (case r of Inr n \<Rightarrow> n | Inl _ \<Rightarrow> maxUint64)
                   in if \<not> neg \<and> un \<ge> 2 ^ 63 then Inl ErrRange
                      else if neg \<and> un > 2 ^ 63 then Inl ErrRange
                      else Inr (if neg then - int un else int un))))"

section \<open>The request framer (internal/http/parser.go and internal/evio/handler.go)\<close>

definition crlf :: "byte list" where
  "crlf = [CHR 0x0D, CHR 0x0A]"

definition headerTerminator :: "byte list" where
  "headerTerminator = crlf @ crlf"

definition contentLengthHeader :: "byte list" where
  "contentLengthHeader = ''Content-Length: ''"

definition contentLengthHeaderLength :: nat where
  "contentLengthHeaderLength = length contentLengthHeader"

text \<open>
  \<open>IsRequestComplete\<close> returns \<open>(bool, error)\<close>: \<open>Inr b\<close> is \<open>(b, nil)\<close> and \<open>Inl e\<close> is
  \<open>(false, e)\<close>. In the spec's words \<open>Inr False\<close> is INCOMPLETE, \<open>Inr True\<close> is COMPLETE
  and \<open>Inl e\<close> is MALFORMED. \<open>data[clIdx:]\<close> cannot panic, \<open>clIdx\<close> being an index that
  \<open>bytes.Index\<close> returned. \<open>int(clen)\<close> is the identity where \<open>int\<close> has 64 bits.
\<close>

definition IsRequestComplete :: "byte list \<Rightarrow> error + bool" where
  "IsRequestComplete data =
     (case Index data headerTerminator of
        None \<Rightarrow> Inr False
      | Some htIdx \<Rightarrow>
          (let htEndIdx = htIdx + 4 in
           case Index data contentLengthHeader of
             None \<Rightarrow> if htEndIdx = length data then Inr True else Inl errBadRequest
           | Some clIdx \<Rightarrow>
               (case Index (drop clIdx data) crlf of
                  None \<Rightarrow> Inl errBadRequest
                | Some e \<Rightarrow>
                    (let clEndIdx = e + clIdx in
                     if htEndIdx \<ge> length data then Inr False
                     else (case slice data (clIdx + contentLengthHeaderLength) clEndIdx of
                             None \<Rightarrow> Inl SliceBounds
                           | Some clenbytes \<Rightarrow>
                               (case ParseInt clenbytes of
                                  Inl err \<Rightarrow> Inl err
                                | Inr clen \<Rightarrow>
                                    if int (length data) - int htEndIdx < clen then Inr False
                                    else Inr True))))))"

text \<open>The copy of the framer in the evio backend, transcribed from its own source.\<close>

definition isRequestComplete :: "byte list \<Rightarrow> error + bool" where
  "isRequestComplete data =
     (case Index data headerTerminator of
        None \<Rightarrow> Inr False
      | Some htIdx \<Rightarrow>
          (let htEndIdx = htIdx + 4 in
           case Index data contentLengthHeader of
             None \<Rightarrow> if htEndIdx = length data then Inr True else Inl errBadRequest
           | Some clIdx \<Rightarrow>
               (case Index (drop clIdx data) crlf of
                  None \<Rightarrow> Inl errBadRequest
                | Some e \<Rightarrow>
                    (let clEndIdx = e + clIdx in
                     if htEndIdx \<ge> length data then Inr False
                     else (case slice data (clIdx + contentLengthHeaderLength) clEndIdx of
                             None \<Rightarrow> Inl SliceBounds
                           | Some clenbytes \<Rightarrow>
                               (case ParseInt clenbytes of
                                  Inl err \<Rightarrow> Inl err
                                | Inr clen \<Rightarrow>
                                    if int (length data) - int htEndIdx < clen then Inr False
                                    else Inr True))))))"

section \<open>Per-connection buffering and the reactor callbacks\<close>

text \<open>
  Modelled from the spec: \<open>evio.InputStream\<close>, the per-connection buffer type of the
  external evio library, with its methods \<open>Begin\<close> and \<open>End\<close>, is not part of the
  repository. Section 4.1 of the spec: \<open>begin(newBytes)\<close> appends \<open>newBytes\<close> to the
  session's buffer and returns the full accumulated view; \<open>end(remainder)\<close> replaces the
  stored buffer with \<open>remainder\<close>. The zero value \<open>&evio.InputStream{}\<close> has an empty
  buffer.
\<close>

record InputStream =
  buffer :: "byte list"

definition Begin :: "InputStream \<Rightarrow> byte list \<Rightarrow> byte list \<times> InputStream" where
  "Begin stream packet = (buffer stream @ packet, stream\<lparr>buffer := buffer stream @ packet\<rparr>)"

definition End :: "InputStream \<Rightarrow> byte list \<Rightarrow> InputStream" where
  "End stream data = stream\<lparr>buffer := data\<rparr>"

datatype Action = ActNone | ActClose | ActShutdown

text \<open>
  The gnet engine. \<open>ctx\<close> is \<open>True\<close> when \<open>e.ctx.Done()\<close> is closed (the shutdown signal is
  set). The connection's context is the \<open>InputStream\<close> passed in and returned; a \<open>nil\<close>
  output slice is \<open>None\<close>. \<open>http.ReadRequest\<close> and the response writer's \<open>WriteToBuf\<close> are
  collaborators outside the source and are parameters; \<open>httpHandler e req\<close> is the
  response writer after \<open>ServeHTTP\<close> has written to it.
\<close>

record ('req, 'res) Engine =
  ctx :: bool
  httpHandler :: "'req \<Rightarrow> 'res"
  binding :: string
  loops :: int
  port :: int

definition OnOpened :: "('req, 'res) Engine \<Rightarrow> (byte list option \<times> Action) \<times> InputStream" where
  "OnOpened e =
     (let c = \<lparr>buffer = []\<rparr>
      in if ctx e then ((None, ActClose), c) else ((None, ActNone), c))"

definition React ::
  "(byte list \<Rightarrow> 'e + 'req) \<Rightarrow> ('res \<Rightarrow> 'e + byte list) \<Rightarrow> ('req, 'res) Engine \<Rightarrow>
   byte list \<Rightarrow> InputStream \<Rightarrow> (byte list option \<times> Action) \<times> InputStream" where
  "React ReadRequest WriteToBuf e inp c =
     (if length inp = 0 then ((None, ActNone), c)
      else
        (let (data, stream) = Begin c inp in
         case IsRequestComplete data of
           Inl err \<Rightarrow> ((None, ActClose), stream)
         | Inr complete \<Rightarrow>
             (let stream = End stream data in
              if \<not> complete then ((None, ActNone), stream)
              else
                (case ReadRequest data of
                   Inl err \<Rightarrow> ((None, ActClose), stream)
                 | Inr req \<Rightarrow>
                     (let res = httpHandler e req in
                      case WriteToBuf res of
                        Inl err \<Rightarrow> ((None, ActClose), stream)
                      | Inr buf \<Rightarrow>
                          if ctx e then ((Some buf, ActClose), stream)
                          else ((Some buf, ActNone), \<lparr>buffer = []\<rparr>))))))"

text \<open>
  The evio handler. \<open>done\<close> is \<open>True\<close> when \<open>ctx.Done()\<close> is closed. \<open>http.ReadRequest\<close>,
  \<open>readall(req.Body)\<close> and \<open>http.Response.Write\<close> are parameters. The empty
  \<open>evio.Options{}\<close> that \<open>Opened\<close> returns is left out.
\<close>

record Response =
  StatusCode :: int
  ProtoMajor :: int
  ProtoMinor :: int
  ContentLength :: int
  Close :: bool
  Body :: "byte list"

definition Opened :: "bool \<Rightarrow> (byte list option \<times> Action) \<times> InputStream" where
  "Opened done =
     (let c = \<lparr>buffer = []\<rparr>
      in if done then ((None, ActClose), c) else ((None, ActNone), c))"

definition Data ::
  "(byte list \<Rightarrow> 'e + 'req) \<Rightarrow> ('req \<Rightarrow> 'e + byte list) \<Rightarrow> (Response \<Rightarrow> 'e + byte list) \<Rightarrow>
   bool \<Rightarrow> byte list \<Rightarrow> InputStream \<Rightarrow> (byte list option \<times> Action) \<times> InputStream" where
  "Data ReadRequest readall Write done inp c =
     (if length inp = 0 then ((None, ActNone), c)
      else
        (let (data, stream) = Begin c inp in
         case isRequestComplete data of
           Inl err \<Rightarrow> ((None, ActClose), stream)
         | Inr complete \<Rightarrow>
             (let stream = End stream data in
              if \<not> complete then ((None, ActNone), stream)
              else
                (case ReadRequest data of
                   Inl err \<Rightarrow> ((None, ActClose), stream)
                 | Inr req \<Rightarrow>
                     (case readall req of
                        Inl err \<Rightarrow> ((None, ActClose), stream)
                      | Inr body \<Rightarrow>
                          (let res = \<lparr>StatusCode = 200, ProtoMajor = 1, ProtoMinor = 1,
                                      ContentLength = int (length body), Close = False,
                                      Body = body\<rparr>
                           in case Write res of
                                Inl err \<Rightarrow> ((None, ActClose), stream)
                              | Inr buf \<Rightarrow>
                                  if done then ((None, ActClose), stream)
                                  else ((Some buf, ActNone), \<lparr>buffer = []\<rparr>)))))))"

section \<open>Notions used to state the properties\<close>

text \<open>\<open>occursAt s sep i\<close>: the bytes of \<open>sep\<close> stand in \<open>s\<close> at index \<open>i\<close>.\<close>

definition occursAt :: "byte list \<Rightarrow> byte list \<Rightarrow> nat \<Rightarrow> bool" where
  "occursAt s sep i = (i + length sep \<le> length s \<and> take (length sep) (drop i s) = sep)"

text \<open>
  A request is well formed for the framer when its header block ends at the first
  \<open>CRLF CRLF\<close> and the bytes after it are exactly the declared body: none when the token
  \<open>Content-Length: \<close> occurs nowhere, and otherwise as many as the value of the first
  token, which stands in the header block, says.
\<close>

definition wellFormed :: "byte list \<Rightarrow> bool" where
  "wellFormed r =
     (case Index r headerTerminator of
        None \<Rightarrow> False
      | Some ht \<Rightarrow>
          (case Index r contentLengthHeader of
             None \<Rightarrow> length r = ht + 4
           | Some cl \<Rightarrow>
               cl < ht \<and>
               (case Index (drop cl r) crlf of
                  None \<Rightarrow> False
                | Some e \<Rightarrow>
                    (case ParseInt (take (e - 16) (drop (cl + 16) r)) of
                       Inl err \<Rightarrow> False
                     | Inr n \<Rightarrow> int (length r) - int (ht + 4) = n))))"

text \<open>
  The reactor delivers the chunks of one connection to \<open>React\<close> in arrival order, each call
  starting from the connection context the previous call left.
\<close>

fun feed ::
  "(byte list \<Rightarrow> 'e + 'req) \<Rightarrow> ('res \<Rightarrow> 'e + byte list) \<Rightarrow> ('req, 'res) Engine \<Rightarrow>
   byte list list \<Rightarrow> InputStream \<Rightarrow> (byte list option \<times> Action) list \<times> InputStream" where
  "feed ReadRequest WriteToBuf e [] c = ([], c)"
| "feed ReadRequest WriteToBuf e (chunk # chunks) c =
     (let (r, c') = React ReadRequest WriteToBuf e chunk c;
          (rs, c'') = feed ReadRequest WriteToBuf e chunks c'
      in (r # rs, c''))"

section \<open>Evaluation rules for concrete buffers\<close>

lemmas framer_eval =
  crlf_def headerTerminator_def contentLengthHeader_def contentLengthHeaderLength_def
  slice_def ParseInt_def ParseUint_def isDigit_def maxUint64_def

section \<open>First occurrences\<close>

lemma hasPrefix_iff: "hasPrefix s p \<longleftrightarrow> length p \<le> length s \<and> take (length p) s = p"
  by (induction s p rule: hasPrefix.induct) auto

lemma occursAt_0: "occursAt s sep 0 = hasPrefix s sep"
  by (auto simp: occursAt_def hasPrefix_iff)

lemma occursAt_Suc: "occursAt (x # xs) sep (Suc i) = occursAt xs sep i"
  by (simp add: occursAt_def)

lemma occursAt_Nil: "occursAt [] sep i \<longleftrightarrow> sep = [] \<and> i = 0"
  by (auto simp: occursAt_def)

lemma Index_Some_iff:
  "Index s sep = Some i \<longleftrightarrow> occursAt s sep i \<and> (\<forall>j<i. \<not> occursAt s sep j)"
proof (induction s arbitrary: i)
  case Nil
  show ?case by (auto simp: occursAt_Nil)
next
  case (Cons x xs)
  show ?case
  proof (cases "hasPrefix (x # xs) sep")
    case True
    then have o0: "occursAt (x # xs) sep 0" by (simp add: occursAt_0)
    show ?thesis
    proof
      assume "Index (x # xs) sep = Some i"
      with True have "i = 0" by simp
      with o0 show "occursAt (x # xs) sep i \<and> (\<forall>j<i. \<not> occursAt (x # xs) sep j)" by simp
    next
      assume a: "occursAt (x # xs) sep i \<and> (\<forall>j<i. \<not> occursAt (x # xs) sep j)"
      have "i = 0"
      proof (rule ccontr)
        assume "i \<noteq> 0"
        then have "0 < i" by simp
        with a o0 show False by blast
      qed
      with True show "Index (x # xs) sep = Some i" by simp
    qed
  next
    case False
    then have n0: "\<not> occursAt (x # xs) sep 0" by (simp add: occursAt_0)
    show ?thesis
    proof
      assume "Index (x # xs) sep = Some i"
      with False obtain k where k: "Index xs sep = Some k" "i = Suc k" by auto
      from k(1) Cons.IH have ok: "occursAt xs sep k" and mk: "\<forall>j<k. \<not> occursAt xs sep j" by auto
      have "\<forall>j<i. \<not> occursAt (x # xs) sep j"
      proof (intro allI impI)
        fix j assume "j < i"
        show "\<not> occursAt (x # xs) sep j"
        proof (cases j)
          case 0
          with n0 show ?thesis by simp
        next
          case (Suc j')
          with \<open>j < i\<close> k(2) have "j' < k" by simp
          with mk Suc show ?thesis by (simp add: occursAt_Suc)
        qed
      qed
      with ok k(2) show "occursAt (x # xs) sep i \<and> (\<forall>j<i. \<not> occursAt (x # xs) sep j)"
        by (simp add: occursAt_Suc)
    next
      assume a: "occursAt (x # xs) sep i \<and> (\<forall>j<i. \<not> occursAt (x # xs) sep j)"
      with n0 obtain k where k: "i = Suc k" by (cases i) auto
      from a k have ok: "occursAt xs sep k" by (simp add: occursAt_Suc)
      have "\<forall>j<k. \<not> occursAt xs sep j"
      proof (intro allI impI)
        fix j assume "j < k"
        then have "Suc j < i" using k by simp
        with a have "\<not> occursAt (x # xs) sep (Suc j)" by blast
        then show "\<not> occursAt xs sep j" by (simp add: occursAt_Suc)
      qed
      with ok Cons.IH have "Index xs sep = Some k" by blast
      with False k show "Index (x # xs) sep = Some i" by simp
    qed
  qed
qed

lemma Index_None_iff: "Index s sep = None \<longleftrightarrow> (\<forall>i. \<not> occursAt s sep i)"
proof (induction s)
  case Nil
  show ?case by (auto simp: occursAt_Nil)
next
  case (Cons x xs)
  show ?case
  proof (cases "hasPrefix (x # xs) sep")
    case True
    then have "occursAt (x # xs) sep 0" by (simp add: occursAt_0)
    with True show ?thesis by auto
  next
    case False
    then have n0: "\<not> occursAt (x # xs) sep 0" by (simp add: occursAt_0)
    have "(\<forall>i. \<not> occursAt (x # xs) sep i) \<longleftrightarrow> (\<forall>i. \<not> occursAt xs sep i)"
    proof
      assume a: "\<forall>i. \<not> occursAt (x # xs) sep i"
      show "\<forall>i. \<not> occursAt xs sep i"
      proof
        fix i from a have "\<not> occursAt (x # xs) sep (Suc i)" by blast
        then show "\<not> occursAt xs sep i" by (simp add: occursAt_Suc)
      qed
    next
      assume a: "\<forall>i. \<not> occursAt xs sep i"
      show "\<forall>i. \<not> occursAt (x # xs) sep i"
      proof
        fix i show "\<not> occursAt (x # xs) sep i"
          using n0 a by (cases i) (auto simp: occursAt_Suc)
      qed
    qed
    with False Cons.IH show ?thesis by simp
  qed
qed

lemma occursAt_first:
  assumes "occursAt s sep i"
  shows "\<exists>k\<le>i. Index s sep = Some k"
proof -
  from assms have "Index s sep \<noteq> None" by (auto simp: Index_None_iff)
  then obtain k where k: "Index s sep = Some k" by auto
  have "k \<le> i"
  proof (rule ccontr)
    assume "\<not> k \<le> i"
    then have "i < k" by simp
    with k assms show False by (auto simp: Index_Some_iff)
  qed
  with k show ?thesis by blast
qed

lemma occursAt_append:
  "i + length sep \<le> length p \<Longrightarrow> occursAt (p @ q) sep i = occursAt p sep i"
  by (auto simp: occursAt_def)

lemma occursAt_bound: "occursAt s sep i \<Longrightarrow> i + length sep \<le> length s"
  by (simp add: occursAt_def)

lemma occursAt_nth:
  assumes "occursAt s sep i" "k < length sep"
  shows "s ! (i + k) = sep ! k"
proof -
  from assms(1) have e: "take (length sep) (drop i s) = sep" and b: "i + length sep \<le> length s"
    by (simp_all add: occursAt_def)
  have "sep ! k = take (length sep) (drop i s) ! k" by (simp only: e)
  also have "\<dots> = drop i s ! k" using assms(2) by simp
  also have "\<dots> = s ! (i + k)" using b assms(2) by simp
  finally show ?thesis by simp
qed

lemma occursAt_drop:
  "c \<le> i \<Longrightarrow> sep \<noteq> [] \<Longrightarrow> occursAt (drop c s) sep (i - c) = occursAt s sep i"
  by (cases "c \<le> length s") (auto simp: occursAt_def)

lemma Index_append_Some:
  assumes "Index p sep = Some i"
  shows "Index (p @ q) sep = Some i"
proof -
  from assms have oi: "occursAt p sep i" and mn: "\<forall>j<i. \<not> occursAt p sep j"
    by (auto simp: Index_Some_iff)
  from oi have b: "i + length sep \<le> length p" by (rule occursAt_bound)
  have "occursAt (p @ q) sep i" using oi b by (simp add: occursAt_append)
  moreover have "\<forall>j<i. \<not> occursAt (p @ q) sep j"
  proof (intro allI impI)
    fix j assume "j < i"
    with b have "j + length sep \<le> length p" by simp
    with mn \<open>j < i\<close> show "\<not> occursAt (p @ q) sep j" by (simp add: occursAt_append)
  qed
  ultimately show ?thesis by (simp add: Index_Some_iff)
qed

lemma Index_append_within:
  assumes "Index (p @ q) sep = Some i" "i + length sep \<le> length p"
  shows "Index p sep = Some i"
proof -
  from assms(1) have oi: "occursAt (p @ q) sep i" by (simp add: Index_Some_iff)
  with assms(2) have "occursAt p sep i" by (simp add: occursAt_append)
  then obtain k where k: "k \<le> i" "Index p sep = Some k" using occursAt_first by blast
  from k(2) have "Index (p @ q) sep = Some k" by (rule Index_append_Some)
  with assms(1) k show ?thesis by simp
qed

section \<open>The framer in closed form\<close>

lemma length_contentLengthHeader: "length contentLengthHeader = 16"
  by (simp add: contentLengthHeader_def)

lemma length_headerTerminator: "length headerTerminator = 4"
  by (simp add: headerTerminator_def crlf_def)

lemma length_crlf: "length crlf = 2"
  by (simp add: crlf_def)

lemma CR_notin_token: "CHR 0x0D \<notin> set contentLengthHeader"
  by (simp add: contentLengthHeader_def)

lemma token_nth_not_CR: "k < 16 \<Longrightarrow> contentLengthHeader ! k \<noteq> CHR 0x0D"
proof
  assume k: "k < 16" and e: "contentLengthHeader ! k = CHR 0x0D"
  from k have "contentLengthHeader ! k \<in> set contentLengthHeader"
    by (intro nth_mem) (simp add: length_contentLengthHeader)
  with e CR_notin_token show False by simp
qed

lemma terminator_is_crlf: "occursAt s headerTerminator i \<Longrightarrow> occursAt s crlf i"
proof -
  assume a: "occursAt s headerTerminator i"
  then have b: "i + 4 \<le> length s" and e: "take 4 (drop i s) = crlf @ crlf"
    by (simp_all add: occursAt_def headerTerminator_def length_crlf)
  have "take 2 (drop i s) = take 2 (take 4 (drop i s))" by simp
  also have "\<dots> = crlf" by (simp only: e) (simp add: crlf_def)
  finally show ?thesis using b by (simp add: occursAt_def length_crlf)
qed

lemma token_clear_of_CR:
  assumes "occursAt s contentLengthHeader cl" "s ! i = CHR 0x0D" "cl \<le> i"
  shows "cl + 16 \<le> i"
proof (rule ccontr)
  assume "\<not> cl + 16 \<le> i"
  then have k: "i - cl < 16" by simp
  with assms(1) have "s ! (cl + (i - cl)) = contentLengthHeader ! (i - cl)"
    by (intro occursAt_nth) (simp_all add: length_contentLengthHeader)
  with assms(2,3) have "contentLengthHeader ! (i - cl) = CHR 0x0D" by simp
  with token_nth_not_CR [OF k] show False by simp
qed

lemma crlf_starts_CR: "occursAt s crlf i \<Longrightarrow> s ! i = CHR 0x0D"
  using occursAt_nth [of s crlf i 0] by (simp add: crlf_def)

lemma value_bounds:
  assumes cl: "Index data contentLengthHeader = Some clIdx"
    and e: "Index (drop clIdx data) crlf = Some e"
  shows "16 \<le> e \<and> e + clIdx + 2 \<le> length data"
proof -
  from cl have o: "occursAt data contentLengthHeader clIdx" by (simp add: Index_Some_iff)
  then have b: "clIdx + 16 \<le> length data" by (simp add: occursAt_def length_contentLengthHeader)
  from e have oe: "occursAt (drop clIdx data) crlf e" by (simp add: Index_Some_iff)
  then have be: "e + 2 \<le> length data - clIdx" by (simp add: occursAt_def length_crlf)
  from oe have "drop clIdx data ! e = CHR 0x0D" by (rule crlf_starts_CR)
  with b be have "data ! (clIdx + e) = CHR 0x0D" by simp
  with o have "clIdx + 16 \<le> clIdx + e" by (intro token_clear_of_CR) simp_all
  with b be show ?thesis by simp
qed

lemma IsRequestComplete_declared:
  assumes ht: "Index data headerTerminator = Some htIdx"
    and cl: "Index data contentLengthHeader = Some clIdx"
    and e: "Index (drop clIdx data) crlf = Some e"
  shows "IsRequestComplete data =
     (if htIdx + 4 \<ge> length data then Inr False
      else (case ParseInt (take (e - 16) (drop (clIdx + 16) data)) of
              Inl err \<Rightarrow> Inl err
            | Inr clen \<Rightarrow>
                if int (length data) - int (htIdx + 4) < clen then Inr False else Inr True))"
proof -
  from value_bounds [OF cl e] have b: "16 \<le> e" "e + clIdx + 2 \<le> length data" by simp_all
  then have s: "slice data (clIdx + contentLengthHeaderLength) (e + clIdx)
      = Some (take (e - 16) (drop (clIdx + 16) data))"
    by (simp add: slice_def contentLengthHeaderLength_def length_contentLengthHeader)
  show ?thesis
    unfolding IsRequestComplete_def by (simp add: ht cl e s Let_def)
qed

lemma IsRequestComplete_undeclared:
  assumes ht: "Index data headerTerminator = Some htIdx"
    and cl: "Index data contentLengthHeader = None"
  shows "IsRequestComplete data =
     (if htIdx + 4 = length data then Inr True else Inl errBadRequest)"
  unfolding IsRequestComplete_def by (simp add: ht cl Let_def)

lemma IsRequestComplete_no_terminator:
  "Index data headerTerminator = None \<Longrightarrow> IsRequestComplete data = Inr False"
  unfolding IsRequestComplete_def by simp

lemma wellFormed_prefix_incomplete:
  assumes wf: "wellFormed (p @ q)" and q: "q \<noteq> []"
  shows "IsRequestComplete p = Inr False"
proof (cases "Index p headerTerminator")
  case None
  then show ?thesis by (rule IsRequestComplete_no_terminator)
next
  case (Some i)
  then have ir: "Index (p @ q) headerTerminator = Some i" by (rule Index_append_Some)
  from Some have op: "occursAt p headerTerminator i" by (simp add: Index_Some_iff)
  then have ip: "i + 4 \<le> length p" by (simp add: occursAt_def length_headerTerminator)
  show ?thesis
  proof (cases "Index (p @ q) contentLengthHeader")
    case None
    with wf ir have "length (p @ q) = i + 4" by (simp add: wellFormed_def)
    moreover from q have "0 < length q" by simp
    ultimately show ?thesis using ip by simp
  next
    case (Some cl)
    with wf ir have lt: "cl < i"
      and rest: "(case Index (drop cl (p @ q)) crlf of None \<Rightarrow> False
          | Some e \<Rightarrow> (case ParseInt (take (e - 16) (drop (cl + 16) (p @ q))) of
                Inl err \<Rightarrow> False | Inr n \<Rightarrow> int (length (p @ q)) - int (i + 4) = n))"
      by (simp_all add: wellFormed_def)
    from rest obtain e where er: "Index (drop cl (p @ q)) crlf = Some e"
      by (cases "Index (drop cl (p @ q)) crlf") auto
    with rest obtain n where n: "ParseInt (take (e - 16) (drop (cl + 16) (p @ q))) = Inr n"
      and len: "int (length (p @ q)) - int (i + 4) = n"
      by (cases "ParseInt (take (e - 16) (drop (cl + 16) (p @ q)))") auto
    from Some have ocl: "occursAt (p @ q) contentLengthHeader cl" by (simp add: Index_Some_iff)
    from op have "p ! i = CHR 0x0D" by (intro crlf_starts_CR terminator_is_crlf)
    with ip have "(p @ q) ! i = CHR 0x0D" by (simp add: nth_append)
    with ocl lt have c16: "cl + 16 \<le> i" by (intro token_clear_of_CR) simp_all
    have "cl + length contentLengthHeader \<le> length p"
      using c16 ip by (simp add: length_contentLengthHeader)
    with Some have clp: "Index p contentLengthHeader = Some cl"
      by (rule Index_append_within)
    from op have opc: "occursAt p crlf i" by (rule terminator_is_crlf)
    have "occursAt (drop cl p) crlf (i - cl) = occursAt p crlf i"
      using lt by (intro occursAt_drop) (simp_all add: crlf_def)
    with opc have "occursAt (drop cl p) crlf (i - cl)" by (simp only:)
    then obtain k where k: "k \<le> i - cl" "Index (drop cl p) crlf = Some k"
      using occursAt_first by blast
    have dr: "drop cl (p @ q) = drop cl p @ q" using c16 ip by simp
    from k(2) have "Index (drop cl p @ q) crlf = Some k" by (rule Index_append_Some)
    then have "Index (drop cl (p @ q)) crlf = Some k" by (simp only: dr)
    with er have ke: "k = e" by (simp only: option.inject)
    from k(2) have ep: "Index (drop cl p) crlf = Some e" by (simp only: ke)
    from k(1) have ei: "e \<le> i - cl" by (simp only: ke)
    have tk: "take (e - 16) (drop (cl + 16) (p @ q)) = take (e - 16) (drop (cl + 16) p)"
      using ei c16 ip by simp
    from n have np: "ParseInt (take (e - 16) (drop (cl + 16) p)) = Inr n" by (simp only: tk)
    from q have "0 < int (length q)" by simp
    moreover from len have "int (length p) + int (length q) - int (i + 4) = n" by simp
    ultimately have "int (length p) - int (i + 4) < n" by linarith
    with np show ?thesis
      by (simp add: IsRequestComplete_declared [OF \<open>Index p headerTerminator = Some i\<close> clp ep])
  qed
qed

lemma ParseUint_loop_errors:
  "ParseUint_loop n s = Inl err \<Longrightarrow> err = ErrSyntax \<or> err = ErrRange"
  by (induction n s rule: ParseUint_loop.induct) (auto simp: Let_def split: if_splits)

lemma ParseInt_errors: "ParseInt s = Inl err \<Longrightarrow> err = ErrSyntax \<or> err = ErrRange"
  by (auto simp: ParseInt_def Let_def split: list.splits sum.splits error.splits if_splits)

lemma IsRequestComplete_no_panic: "IsRequestComplete data \<noteq> Inl SliceBounds"
proof (cases "Index data headerTerminator")
  case None
  then show ?thesis by (simp add: IsRequestComplete_no_terminator)
next
  case (Some htIdx)
  show ?thesis
  proof (cases "Index data contentLengthHeader")
    case None
    with Some show ?thesis by (simp add: IsRequestComplete_undeclared)
  next
    case cl: (Some clIdx)
    show ?thesis
    proof (cases "Index (drop clIdx data) crlf")
      case None
      with Some cl show ?thesis by (simp add: IsRequestComplete_def)
    next
      case e: (Some e)
      show ?thesis
        using ParseInt_errors [of "take (e - 16) (drop (clIdx + 16) data)"]
        by (auto simp: IsRequestComplete_declared [OF Some cl e] split: sum.splits)
    qed
  qed
qed

lemma declared_length_verdict:
  assumes "Index data headerTerminator = Some htIdx"
    and "Index data contentLengthHeader = Some clIdx"
    and "Index (drop clIdx data) crlf = Some e"
    and "ParseInt (take (e - 16) (drop (clIdx + 16) data)) = Inr n"
    and "htIdx + 4 < length data"
  shows "IsRequestComplete data = Inr (n \<le> int (length data) - int (htIdx + 4))"
  using assms(4,5) by (simp add: IsRequestComplete_declared [OF assms(1-3)])

section \<open>The callbacks by verdict, and feeding in chunks\<close>

lemma InputStream_update: "(c :: InputStream)\<lparr>buffer := x\<rparr> = \<lparr>buffer = x\<rparr>"
  by (cases c) simp

lemma React_incomplete:
  assumes "inp \<noteq> []" "IsRequestComplete (buffer c @ inp) = Inr False"
  shows "React rr wb e inp c = ((None, ActNone), \<lparr>buffer = buffer c @ inp\<rparr>)"
  using assms by (simp add: React_def Begin_def End_def InputStream_update)

lemma React_malformed:
  assumes "inp \<noteq> []" "IsRequestComplete (buffer c @ inp) = Inl err"
  shows "React rr wb e inp c = ((None, ActClose), \<lparr>buffer = buffer c @ inp\<rparr>)"
  using assms by (simp add: React_def Begin_def End_def InputStream_update)




lemma Data_shutdown_no_output: "fst (fst (Data rr ra wr True inp c)) = None"
  by (simp add: Data_def Begin_def End_def Let_def split: sum.splits)

lemma React_whole:
  assumes "inp \<noteq> []"
  shows "React rr wb e inp c = React rr wb e (buffer c @ inp) \<lparr>buffer = []\<rparr>"
  using assms by (simp add: React_def Begin_def End_def InputStream_update)

lemma wellFormed_whole:
  assumes wf: "wellFormed r" and ht: "Index r headerTerminator = Some ht"
  shows "IsRequestComplete r = Inr (Index r contentLengthHeader = None \<or> ht + 4 < length r)"
proof (cases "Index r contentLengthHeader")
  case None
  with wf ht have "length r = ht + 4" by (simp add: wellFormed_def)
  with None show ?thesis by (simp add: IsRequestComplete_undeclared [OF ht None])
next
  case (Some cl)
  with wf ht have
    rest: "(case Index (drop cl r) crlf of None \<Rightarrow> False
          | Some e \<Rightarrow> (case ParseInt (take (e - 16) (drop (cl + 16) r)) of
                Inl err \<Rightarrow> False | Inr n \<Rightarrow> int (length r) - int (ht + 4) = n))"
    by (simp add: wellFormed_def)
  from rest obtain e where er: "Index (drop cl r) crlf = Some e"
    by (cases "Index (drop cl r) crlf") auto
  with rest obtain n where n: "ParseInt (take (e - 16) (drop (cl + 16) r)) = Inr n"
    and len: "int (length r) - int (ht + 4) = n"
    by (cases "ParseInt (take (e - 16) (drop (cl + 16) r))") auto
  from n len Some show ?thesis
    by (simp add: IsRequestComplete_declared [OF ht Some er])
qed

lemma wellFormed_nonempty: "wellFormed r \<Longrightarrow> r \<noteq> []"
  by (auto simp: wellFormed_def headerTerminator_def crlf_def)

lemma feed_chunks:
  assumes wf: "wellFormed r"
  shows "chunks \<noteq> [] \<Longrightarrow> [] \<notin> set chunks \<Longrightarrow> buffer c @ concat chunks = r \<Longrightarrow>
    feed rr wb e chunks c =
      (replicate (length chunks - 1) (None, ActNone) @ [fst (React rr wb e r \<lparr>buffer = []\<rparr>)],
       snd (React rr wb e r \<lparr>buffer = []\<rparr>))"
proof (induction chunks arbitrary: c)
  case Nil
  then show ?case by simp
next
  case (Cons chunk chunks)
  from Cons.prems(2) have ne: "chunk \<noteq> []" by auto
  show ?case
  proof (cases "chunks = []")
    case True
    with Cons.prems(3) have "buffer c @ chunk = r" by simp
    with React_whole [OF ne, of rr wb e c]
    have "React rr wb e chunk c = React rr wb e r \<lparr>buffer = []\<rparr>" by simp
    with True show ?thesis by (simp add: case_prod_beta)
  next
    case False
    with Cons.prems(2) have "concat chunks \<noteq> []" by (cases chunks) auto
    moreover from Cons.prems(3) have "(buffer c @ chunk) @ concat chunks = r" by simp
    ultimately have "IsRequestComplete (buffer c @ chunk) = Inr False"
      using wf wellFormed_prefix_incomplete by blast
    with ne have st: "React rr wb e chunk c = ((None, ActNone), \<lparr>buffer = buffer c @ chunk\<rparr>)"
      by (rule React_incomplete)
    have "feed rr wb e chunks \<lparr>buffer = buffer c @ chunk\<rparr> =
      (replicate (length chunks - 1) (None, ActNone) @ [fst (React rr wb e r \<lparr>buffer = []\<rparr>)],
       snd (React rr wb e r \<lparr>buffer = []\<rparr>))"
      using False Cons.prems(2,3) by (intro Cons.IH) simp_all
    moreover from False have "replicate (length (chunk # chunks) - 1) (None, ActNone) =
      (None :: byte list option, ActNone) # replicate (length chunks - 1) (None, ActNone)"
      by (cases chunks) simp_all
    ultimately show ?thesis using st by simp
  qed
qed

lemma feed_chunks_example:
  "feed (Inr :: byte list \<Rightarrow> unit + byte list) (Inr :: byte list \<Rightarrow> unit + byte list)
     \<lparr>ctx = False, httpHandler = id, binding = [], loops = 1, port = 8080\<rparr>
     [''POST / HTTP/1.1'' @ crlf @ ''Content-Le'', ''ngth: 5'' @ crlf @ crlf @ ''hel'', ''lo'']
     \<lparr>buffer = []\<rparr>
   = ([(None, ActNone), (None, ActNone),
       (Some (''POST / HTTP/1.1'' @ crlf @ ''Content-Length: 5'' @ crlf @ crlf @ ''hello''),
        ActNone)],
      \<lparr>buffer = []\<rparr>)"
proof -
  let ?r = "''POST / HTTP/1.1'' @ crlf @ ''Content-Length: 5'' @ crlf @ crlf @ ''hello''"
  let ?rr = "Inr :: byte list \<Rightarrow> unit + byte list"
  let ?e = "\<lparr>ctx = False, httpHandler = id :: byte list \<Rightarrow> byte list, binding = [],
            loops = 1, port = 8080\<rparr>"
  let ?chunks = "[''POST / HTTP/1.1'' @ crlf @ ''Content-Le'',
                  ''ngth: 5'' @ crlf @ crlf @ ''hel'', ''lo'']"
  have w: "wellFormed ?r" by (simp add: wellFormed_def framer_eval)
  have c: "IsRequestComplete ?r = Inr True" by (simp add: IsRequestComplete_def framer_eval)
  have n: "?chunks \<noteq> []" "[] \<notin> set ?chunks" by (simp_all add: crlf_def)
  have k: "buffer \<lparr>buffer = []\<rparr> @ concat ?chunks = ?r" by (simp add: crlf_def)
  have "React ?rr ?rr ?e ?r \<lparr>buffer = []\<rparr> = ((Some ?r, ActNone), \<lparr>buffer = []\<rparr>)"
    using c by (simp add: React_def Begin_def End_def crlf_def)
  with feed_chunks [OF w n k, of ?rr ?rr ?e] show ?thesis by simp
qed

lemma Opened_shutdown: "Opened True = ((None, ActClose), \<lparr>buffer = []\<rparr>)"
  by (simp add: Opened_def)

lemma OnOpened_shutdown: "ctx e \<Longrightarrow> OnOpened e = ((None, ActClose), \<lparr>buffer = []\<rparr>)"
  by (simp add: OnOpened_def)

section \<open>The two framers agree\<close>

text \<open>
  C9: the framer of the gnet backend (\<open>IsRequestComplete\<close>) and the framer of the evio
  backend (\<open>isRequestComplete\<close>) return the same result on every byte sequence: the same
  completeness boolean and the same error, if any.
\<close>

theorem framers_agree: "isRequestComplete data = IsRequestComplete data"
  unfolding isRequestComplete_def IsRequestComplete_def by (rule refl)

section \<open>Requests without a declared length\<close>

text \<open>
  When the token \<open>Content-Length: \<close> occurs nowhere in the buffer, the framer returns
  COMPLETE if the buffer ends with the header terminator and the bad-request error if any
  byte follows it.
\<close>

lemma no_content_length_verdict:
  assumes "Index data headerTerminator = Some htIdx"
    and "Index data contentLengthHeader = None"
  shows "(htIdx + 4 = length data \<longrightarrow> IsRequestComplete data = Inr True) \<and>
         (htIdx + 4 < length data \<longrightarrow> IsRequestComplete data = Inl errBadRequest)"
  using assms by (simp add: IsRequestComplete_undeclared)

lemma no_content_length_verdict_witness:
  "Index (''GET / HTTP/1.1'' @ crlf @ ''Host: x'' @ crlf @ crlf) headerTerminator = Some 23 \<and>
   Index (''GET / HTTP/1.1'' @ crlf @ ''Host: x'' @ crlf @ crlf) contentLengthHeader = None \<and>
   IsRequestComplete (''GET / HTTP/1.1'' @ crlf @ ''Host: x'' @ crlf @ crlf) = Inr True \<and>
   Index (''POST / HTTP/1.1'' @ crlf @ crlf @ ''hello'') headerTerminator = Some 15 \<and>
   Index (''POST / HTTP/1.1'' @ crlf @ crlf @ ''hello'') contentLengthHeader = None \<and>
   IsRequestComplete (''POST / HTTP/1.1'' @ crlf @ crlf @ ''hello'') = Inl errBadRequest"
proof -
  have g1: "Index (''GET / HTTP/1.1'' @ crlf @ ''Host: x'' @ crlf @ crlf) headerTerminator = Some 23"
    by (simp add: framer_eval)
  have g2: "Index (''GET / HTTP/1.1'' @ crlf @ ''Host: x'' @ crlf @ crlf) contentLengthHeader = None"
    by (simp add: framer_eval)
  have p1: "Index (''POST / HTTP/1.1'' @ crlf @ crlf @ ''hello'') headerTerminator = Some 15"
    by (simp add: framer_eval)
  have p2: "Index (''POST / HTTP/1.1'' @ crlf @ crlf @ ''hello'') contentLengthHeader = None"
    by (simp add: framer_eval)
  have lg: "23 + 4 = length (''GET / HTTP/1.1'' @ crlf @ ''Host: x'' @ crlf @ crlf)"
    by (simp add: crlf_def)
  have lp: "15 + 4 < length (''POST / HTTP/1.1'' @ crlf @ crlf @ ''hello'')"
    by (simp add: crlf_def)
  from no_content_length_verdict [OF g1 g2] lg
  have "IsRequestComplete (''GET / HTTP/1.1'' @ crlf @ ''Host: x'' @ crlf @ crlf) = Inr True"
    by blast
  moreover from no_content_length_verdict [OF p1 p2] lp
  have "IsRequestComplete (''POST / HTTP/1.1'' @ crlf @ crlf @ ''hello'') = Inl errBadRequest"
    by blast
  ultimately show ?thesis using g1 g2 p1 p2 by blast
qed

text \<open>
  A buffer that ends with the header terminator and has no token in its header block has
  no token at all, the token holding no carriage return: it is COMPLETE.
\<close>

lemma header_block_token_free:
  assumes ht: "Index data headerTerminator = Some htIdx"
    and hb: "Index (take htIdx data) contentLengthHeader = None"
    and len: "htIdx + 4 = length data"
  shows "Index data contentLengthHeader = None"
proof -
  from ht have oh: "occursAt data headerTerminator htIdx" by (simp add: Index_Some_iff)
  then have cr: "data ! htIdx = CHR 0x0D" by (intro crlf_starts_CR terminator_is_crlf)
  have "\<not> occursAt data contentLengthHeader j" for j
  proof
    assume oj: "occursAt data contentLengthHeader j"
    then have b: "j + 16 \<le> length data" by (simp add: occursAt_def length_contentLengthHeader)
    with len have jl: "j \<le> htIdx" by simp
    with oj cr have c: "j + 16 \<le> htIdx" by (intro token_clear_of_CR)
    have split: "data = take htIdx data @ drop htIdx data" by simp
    have "occursAt (take htIdx data @ drop htIdx data) contentLengthHeader j
        = occursAt (take htIdx data) contentLengthHeader j"
      using c b by (intro occursAt_append) (simp add: length_contentLengthHeader)
    with oj have "occursAt (take htIdx data) contentLengthHeader j" by simp
    with hb show False by (simp add: Index_None_iff)
  qed
  then show ?thesis by (simp add: Index_None_iff)
qed

lemma bare_request_complete:
  assumes ht: "Index data headerTerminator = Some htIdx"
    and hb: "Index (take htIdx data) contentLengthHeader = None"
    and len: "htIdx + 4 = length data"
  shows "IsRequestComplete data = Inr True"
  using len
  by (simp add: IsRequestComplete_undeclared [OF ht header_block_token_free [OF ht hb len]])

text \<open>
  A request whose header block and body are free of the exact token and that has a body
  is rejected with the bad-request error, whatever the header block holds. The instance
  has the header lines \<open>content-length: 5\<close> and \<open>Content-Length:5\<close>; with two spaces
  after the colon the token is found and the value is a syntax error.
\<close>

lemma inexact_token_is_absent:
  assumes "body \<noteq> []"
    and "Index (hdr @ headerTerminator @ body) contentLengthHeader = None"
  shows "IsRequestComplete (hdr @ headerTerminator @ body) = Inl errBadRequest"
proof -
  have "occursAt (hdr @ headerTerminator @ body) headerTerminator (length hdr)"
    by (simp add: occursAt_def)
  then obtain k where k: "k \<le> length hdr"
      "Index (hdr @ headerTerminator @ body) headerTerminator = Some k"
    using occursAt_first by blast
  have "length (hdr @ headerTerminator @ body) = length hdr + 4 + length body"
    by (simp add: length_headerTerminator)
  moreover from assms(1) have "0 < length body" by simp
  ultimately have "k + 4 \<noteq> length (hdr @ headerTerminator @ body)"
    using k(1) by arith
  then show ?thesis
    by (simp only: IsRequestComplete_undeclared [OF k(2) assms(2)] if_False)
qed

lemma inexact_token_is_absent_witness:
  "''hello'' \<noteq> [] \<and>
   Index ((''POST / HTTP/1.1'' @ crlf @ ''content-length: 5'') @ headerTerminator @ ''hello'')
     contentLengthHeader = None \<and>
   IsRequestComplete ((''POST / HTTP/1.1'' @ crlf @ ''content-length: 5'') @ headerTerminator @ ''hello'')
     = Inl errBadRequest \<and>
   Index ((''POST / HTTP/1.1'' @ crlf @ ''Content-Length:5'') @ headerTerminator @ ''hello'')
     contentLengthHeader = None \<and>
   IsRequestComplete ((''POST / HTTP/1.1'' @ crlf @ ''Content-Length:5'') @ headerTerminator @ ''hello'')
     = Inl errBadRequest"
proof -
  have b: "''hello'' \<noteq> []" by simp
  have l: "Index ((''POST / HTTP/1.1'' @ crlf @ ''content-length: 5'') @ headerTerminator @ ''hello'')
     contentLengthHeader = None"
    by (simp add: framer_eval)
  have s: "Index ((''POST / HTTP/1.1'' @ crlf @ ''Content-Length:5'') @ headerTerminator @ ''hello'')
     contentLengthHeader = None"
    by (simp add: framer_eval)
  from inexact_token_is_absent [OF b l] inexact_token_is_absent [OF b s] b l s
  show ?thesis by blast
qed

lemma two_space_variant:
  "IsRequestComplete (''POST / HTTP/1.1'' @ crlf @ ''Content-Length:  5'' @ crlf @ crlf @ ''hello'')
     = Inl ErrSyntax"
  by (simp add: IsRequestComplete_def framer_eval)

section \<open>Where the token is searched\<close>

text \<open>
  C4: the failing input. The request has no \<open>Content-Length: \<close> token before the header
  terminator (which is found at index 15) and a body of 22 bytes that begins with the
  token. The framer searches the whole buffer, takes the body's token as the declared
  length 3 and returns COMPLETE where a body without declared length is MALFORMED.
\<close>

theorem body_token_counts_as_header:
  "Index (''POST / HTTP/1.1'' @ crlf @ crlf @ ''Content-Length: 3'' @ crlf @ ''abc'')
     headerTerminator = Some 15 \<and>
   Index (take 15 (''POST / HTTP/1.1'' @ crlf @ crlf @ ''Content-Length: 3'' @ crlf @ ''abc''))
     contentLengthHeader = None \<and>
   IsRequestComplete (''POST / HTTP/1.1'' @ crlf @ crlf @ ''Content-Length: 3'' @ crlf @ ''abc'')
     = Inr True"
  by (simp add: IsRequestComplete_def framer_eval)

text \<open>
  C6: the failing input. The buffer contains the header terminator, at index 24, and no
  \<open>Content-Length\<close> header: its header block is the request line and \<open>Host: x\<close>. Bytes
  follow the terminator, so the verdict is to be MALFORMED; the body begins with the text
  of the token, which the framer takes as a declared length. With the value 99 the
  verdict is INCOMPLETE, with the value 9 it is COMPLETE.
\<close>

theorem undeclared_body_not_rejected:
  "Index (''PUT /x HTTP/1.1'' @ crlf @ ''Host: x'' @ crlf @ crlf @ ''Content-Length: 99'' @ crlf
      @ ''abc'') headerTerminator = Some 24 \<and>
   Index (take 24 (''PUT /x HTTP/1.1'' @ crlf @ ''Host: x'' @ crlf @ crlf
      @ ''Content-Length: 99'' @ crlf @ ''abc'')) contentLengthHeader = None \<and>
   IsRequestComplete (''PUT /x HTTP/1.1'' @ crlf @ ''Host: x'' @ crlf @ crlf
      @ ''Content-Length: 99'' @ crlf @ ''abc'') = Inr False \<and>
   IsRequestComplete (''PUT /x HTTP/1.1'' @ crlf @ ''Host: x'' @ crlf @ crlf
      @ ''Content-Length: 9'' @ crlf @ ''abc'') = Inr True"
  by (simp add: IsRequestComplete_def framer_eval)

text \<open>
  C10: the failing input. The only length header of the request is written
  \<open>content-length: 21\<close> and its 21 body bytes begin with the text of the exact token. The
  header block holds no exact token, yet the request is not judged MALFORMED: the framer
  frames it by the value 1 that follows the token in the body, and already returns
  COMPLETE when only 19 of the 21 body bytes have arrived.
\<close>

theorem lowercase_header_framed_by_body_token:
  "Index (''POST / HTTP/1.1'' @ crlf @ ''content-length: 21'' @ crlf @ crlf
      @ ''Content-Length: 1'' @ crlf @ ''ab'') headerTerminator = Some 35 \<and>
   Index (take 35 (''POST / HTTP/1.1'' @ crlf @ ''content-length: 21'' @ crlf @ crlf
      @ ''Content-Length: 1'' @ crlf @ ''ab'')) contentLengthHeader = None \<and>
   length (''Content-Length: 1'' @ crlf @ ''ab'') = 21 \<and>
   IsRequestComplete (''POST / HTTP/1.1'' @ crlf @ ''content-length: 21'' @ crlf @ crlf
      @ ''Content-Length: 1'' @ crlf @ ''ab'') = Inr True \<and>
   IsRequestComplete (''POST / HTTP/1.1'' @ crlf @ ''content-length: 21'' @ crlf @ crlf
      @ ''Content-Length: 1'' @ crlf) = Inr True"
  by (simp add: IsRequestComplete_def framer_eval)

section \<open>Requests with a declared length\<close>

text \<open>
  C7: the failing input. The request declares \<open>Content-Length: 0\<close> and is entirely in the
  buffer: at least 0 bytes follow the terminator. The framer returns INCOMPLETE, because
  the check that no byte follows the terminator comes before the comparison with the
  declared length.
\<close>

theorem zero_content_length_incomplete:
  "ParseInt ''0'' = Inr 0 \<and>
   IsRequestComplete (''POST / HTTP/1.1'' @ crlf @ ''Content-Length: 0'' @ crlf @ crlf)
     = Inr False"
  by (simp add: IsRequestComplete_def framer_eval)

text \<open>
  C3: the failing inputs. The value \<open>-5\<close> is not a non-negative integer, yet it is parsed
  and the request, with one byte after the terminator, is judged COMPLETE. The value
  \<open>12a\<close> is not an integer, yet with no byte after the terminator the framer returns
  INCOMPLETE: the check that no byte follows the terminator comes before the value is
  parsed.
\<close>

theorem malformed_length_not_rejected:
  "ParseInt ''-5'' = Inr (- 5) \<and>
   IsRequestComplete (''POST / HTTP/1.1'' @ crlf @ ''Content-Length: -5'' @ crlf @ crlf @ ''x'')
     = Inr True \<and>
   ParseInt ''12a'' = Inl ErrSyntax \<and>
   IsRequestComplete (''POST / HTTP/1.1'' @ crlf @ ''Content-Length: 12a'' @ crlf @ crlf)
     = Inr False"
  by (simp add: IsRequestComplete_def framer_eval)

text \<open>
  Once a byte follows the terminator, a value that \<open>strconv.ParseInt\<close> rejects makes the
  framer return the parse error.
\<close>

lemma unparseable_length_malformed:
  assumes "Index data headerTerminator = Some htIdx"
    and "Index data contentLengthHeader = Some clIdx"
    and "Index (drop clIdx data) crlf = Some e"
    and "ParseInt (take (e - 16) (drop (clIdx + 16) data)) = Inl err"
  shows "IsRequestComplete data = (if htIdx + 4 < length data then Inl err else Inr False)"
  using assms(4) by (simp add: IsRequestComplete_declared [OF assms(1-3)])

lemma unparseable_length_malformed_witness:
  "Index (''POST / HTTP/1.1'' @ crlf @ ''Content-Length: 12a'' @ crlf @ crlf @ ''x'')
     headerTerminator = Some 36 \<and>
   Index (''POST / HTTP/1.1'' @ crlf @ ''Content-Length: 12a'' @ crlf @ crlf @ ''x'')
     contentLengthHeader = Some 17 \<and>
   Index (drop 17 (''POST / HTTP/1.1'' @ crlf @ ''Content-Length: 12a'' @ crlf @ crlf @ ''x''))
     crlf = Some 19 \<and>
   ParseInt (take (19 - 16)
     (drop (17 + 16) (''POST / HTTP/1.1'' @ crlf @ ''Content-Length: 12a'' @ crlf @ crlf @ ''x'')))
     = Inl ErrSyntax \<and>
   IsRequestComplete (''POST / HTTP/1.1'' @ crlf @ ''Content-Length: 12a'' @ crlf @ crlf @ ''x'')
     = Inl ErrSyntax"
proof -
  have h: "Index (''POST / HTTP/1.1'' @ crlf @ ''Content-Length: 12a'' @ crlf @ crlf @ ''x'')
     headerTerminator = Some 36"
    by (simp add: framer_eval)
  have c: "Index (''POST / HTTP/1.1'' @ crlf @ ''Content-Length: 12a'' @ crlf @ crlf @ ''x'')
     contentLengthHeader = Some 17"
    by (simp add: framer_eval)
  have e: "Index (drop 17 (''POST / HTTP/1.1'' @ crlf @ ''Content-Length: 12a'' @ crlf @ crlf @ ''x''))
     crlf = Some 19"
    by (simp add: framer_eval)
  have v: "ParseInt (take (19 - 16)
     (drop (17 + 16) (''POST / HTTP/1.1'' @ crlf @ ''Content-Length: 12a'' @ crlf @ crlf @ ''x'')))
     = Inl ErrSyntax"
    by (simp add: framer_eval)
  have l: "36 + 4 < length (''POST / HTTP/1.1'' @ crlf @ ''Content-Length: 12a'' @ crlf @ crlf @ ''x'')"
    by (simp add: crlf_def)
  from unparseable_length_malformed [OF h c e v] l
  have "IsRequestComplete (''POST / HTTP/1.1'' @ crlf @ ''Content-Length: 12a'' @ crlf @ crlf @ ''x'')
     = Inl ErrSyntax"
    by (simp only: if_True)
  with h c e v show ?thesis by blast
qed

section \<open>The connection's buffer after a dispatch\<close>




section \<open>Shutdown\<close>

text \<open>
  C2: the failing input. With the shutdown signal set, the evio handler's \<open>Data\<close> frames
  the request as COMPLETE, serializes the response and returns \<open>nil\<close> with the close
  action: the response is not emitted. With the signal unset the same call emits it, and
  the gnet engine's \<open>React\<close> emits it together with the close action when the signal is
  set.
\<close>

theorem evio_shutdown_drops_response:
  "isRequestComplete (''GET / HTTP/1.1'' @ crlf @ crlf) = Inr True \<and>
   Data (Inr :: byte list \<Rightarrow> unit + byte list) (Inr :: byte list \<Rightarrow> unit + byte list)
     (Inr \<circ> Body) True (''GET / HTTP/1.1'' @ crlf @ crlf) \<lparr>buffer = []\<rparr>
   = ((None, ActClose), \<lparr>buffer = ''GET / HTTP/1.1'' @ crlf @ crlf\<rparr>) \<and>
   Data (Inr :: byte list \<Rightarrow> unit + byte list) (Inr :: byte list \<Rightarrow> unit + byte list)
     (Inr \<circ> Body) False (''GET / HTTP/1.1'' @ crlf @ crlf) \<lparr>buffer = []\<rparr>
   = ((Some (''GET / HTTP/1.1'' @ crlf @ crlf), ActNone), \<lparr>buffer = []\<rparr>) \<and>
   React (Inr :: byte list \<Rightarrow> unit + byte list) (Inr :: byte list \<Rightarrow> unit + byte list)
     \<lparr>ctx = True, httpHandler = id, binding = [], loops = 1, port = 8080\<rparr>
     (''GET / HTTP/1.1'' @ crlf @ crlf) \<lparr>buffer = []\<rparr>
   = ((Some (''GET / HTTP/1.1'' @ crlf @ crlf), ActClose),
      \<lparr>buffer = ''GET / HTTP/1.1'' @ crlf @ crlf\<rparr>)"
proof -
  have c: "isRequestComplete (''GET / HTTP/1.1'' @ crlf @ crlf) = Inr True"
    by (simp add: isRequestComplete_def framer_eval)
  then have c': "IsRequestComplete (''GET / HTTP/1.1'' @ crlf @ crlf) = Inr True"
    by (simp add: IsRequestComplete_def isRequestComplete_def)
  from c c' show ?thesis
    by (simp add: Data_def React_def Begin_def End_def crlf_def)
qed

section \<open>Chunked delivery\<close>

text \<open>
  C5: the failing input. The request that declares \<open>Content-Length: 0\<close> is well formed,
  and fed whole or in two chunks it is never dispatched: every call returns no output and
  no action, and the request stays in the buffer.
\<close>

theorem zero_length_request_never_dispatched:
  "wellFormed (''POST / HTTP/1.1'' @ crlf @ ''Content-Length: 0'' @ crlf @ crlf) \<and>
   feed (Inr :: byte list \<Rightarrow> unit + byte list) (Inr :: byte list \<Rightarrow> unit + byte list)
     \<lparr>ctx = False, httpHandler = id, binding = [], loops = 1, port = 8080\<rparr>
     [''POST / HTTP/1.1'' @ crlf @ ''Content-Length: 0'' @ crlf @ crlf] \<lparr>buffer = []\<rparr>
   = ([(None, ActNone)],
      \<lparr>buffer = ''POST / HTTP/1.1'' @ crlf @ ''Content-Length: 0'' @ crlf @ crlf\<rparr>) \<and>
   feed (Inr :: byte list \<Rightarrow> unit + byte list) (Inr :: byte list \<Rightarrow> unit + byte list)
     \<lparr>ctx = False, httpHandler = id, binding = [], loops = 1, port = 8080\<rparr>
     [''POST / HTTP/1.1'' @ crlf, ''Content-Length: 0'' @ crlf @ crlf] \<lparr>buffer = []\<rparr>
   = ([(None, ActNone), (None, ActNone)],
      \<lparr>buffer = ''POST / HTTP/1.1'' @ crlf @ ''Content-Length: 0'' @ crlf @ crlf\<rparr>)"
proof -
  have w: "wellFormed (''POST / HTTP/1.1'' @ crlf @ ''Content-Length: 0'' @ crlf @ crlf)"
    by (simp add: wellFormed_def framer_eval)
  have a: "IsRequestComplete (''POST / HTTP/1.1'' @ crlf @ ''Content-Length: 0'' @ crlf @ crlf)
      = Inr False"
    by (simp add: IsRequestComplete_def framer_eval)
  have b: "IsRequestComplete (''POST / HTTP/1.1'' @ crlf) = Inr False"
    by (simp add: IsRequestComplete_def framer_eval)
  from w a b show ?thesis
    by (simp add: React_def Begin_def End_def crlf_def)
qed

end
